theory Spec2Isabelle
  imports Main
begin

section \<open>The AWS S3 storage backend of mmengine\<close>

text \<open>
  A shallow embedding of \<^verbatim>\<open>mmengine/fileio/backends/aws_backend.py\<close>
  (class \<^verbatim>\<open>AWSBackend\<close>). Python strings are \<^typ>\<open>string\<close>, exceptions are values
  of the datatype \<open>error\<close> and every operation that can raise returns
  \<open>error + 'a\<close>. The boto3 client is an external collaborator: it is a record of
  response functions, and every call the backend issues is appended to a request
  log in the state that is passed along.
\<close>

subsection \<open>Python string primitives\<close>

text \<open>\<^verbatim>\<open>s.startswith(p)\<close> and \<^verbatim>\<open>s.endswith(p)\<close>.\<close>

definition startswith :: "string \<Rightarrow> string \<Rightarrow> bool" where
  "startswith s p = (take (length p) s = p)"

definition endswith :: "string \<Rightarrow> string \<Rightarrow> bool" where
  "endswith s p = (length p \<le> length s \<and> drop (length s - length p) s = p)"

text \<open>
  \<^verbatim>\<open>s.replace(old, new)\<close>: the non-overlapping occurrences of \<open>old\<close> are replaced
  from left to right. For an empty \<open>old\<close> Python inserts \<open>new\<close> before every
  character and at the end.
\<close>

function str_replace_go :: "string \<Rightarrow> string \<Rightarrow> string \<Rightarrow> string" where
  "str_replace_go old new [] = []"
| "str_replace_go old new (c # cs) =
     (if old \<noteq> [] \<and> startswith (c # cs) old
      then new @ str_replace_go old new (drop (length old) (c # cs))
      else c # str_replace_go old new cs)"
  by pat_completeness auto
termination
  by (relation "measure (\<lambda>(old, new, s). length s)") auto

definition str_replace :: "string \<Rightarrow> string \<Rightarrow> string \<Rightarrow> string" where
  "str_replace old new s =
     (if old = [] then new @ concat (map (\<lambda>c. c # new) s)
      else str_replace_go old new s)"

text \<open>\<^verbatim>\<open>s.split(sep)\<close> for a separator of one character; empty pieces are kept.\<close>

fun str_split :: "char \<Rightarrow> string \<Rightarrow> string list" where
  "str_split sep [] = [[]]"
| "str_split sep (c # cs) =
     (if c = sep then [] # str_split sep cs
      else (case str_split sep cs of
              [] \<Rightarrow> [[c]]
            | w # ws \<Rightarrow> (c # w) # ws))"

text \<open>\<^verbatim>\<open>s.split(sep, maxsplit=1)\<close>.\<close>

definition str_split1 :: "char \<Rightarrow> string \<Rightarrow> string list" where
  "str_split1 sep s =
     (case dropWhile (\<lambda>c. c \<noteq> sep) s of
        [] \<Rightarrow> [s]
      | _ # rest \<Rightarrow> [takeWhile (\<lambda>c. c \<noteq> sep) s, rest])"

text \<open>\<^verbatim>\<open>sep.join(xs)\<close>.\<close>

fun str_join :: "string \<Rightarrow> string list \<Rightarrow> string" where
  "str_join sep [] = []"
| "str_join sep [x] = x"
| "str_join sep (x # y # ys) = x @ sep @ str_join sep (y # ys)"

subsection \<open>Errors, the client and the state\<close>

text \<open>
  The exceptions of the source. The specification calls \<open>ValueError\<close> raised by the
  parser \<^verbatim>\<open>InvalidPathError\<close>, the \<open>TypeError\<close> of the listing options
  \<^verbatim>\<open>ConfigurationError\<close>, and the failed assertion of \<^verbatim>\<open>get_local_path\<close>
  \<^verbatim>\<open>NotAFileError\<close>. \<open>ClientError\<close> is the exception of botocore that the probes
  of the client raise, and \<open>RecursionError\<close> is what the interpreter raises when
  calls are nested deeper than its recursion limit.
\<close>

datatype error =
    ValueError
  | TypeError
  | ClientError
  | AssertionError
  | FileNotFoundError
  | RecursionError
  | KeyboardInterrupt
  | OtherError string

text \<open>Continuation tokens are opaque to the backend.\<close>

type_synonym token = nat

text \<open>
  One page of \<^verbatim>\<open>list_objects_v2\<close> as the code reads it: the optional entry
  \<^verbatim>\<open>'NextContinuationToken'\<close>, the status code under \<^verbatim>\<open>'ResponseMetadata'\<close>, and
  the optional entry \<^verbatim>\<open>'Contents'\<close> reduced to the keys.
\<close>

record response =
  NextContinuationToken :: "token option"
  HTTPStatusCode :: int
  Contents :: "string list option"

datatype request =
    HeadBucket string
  | HeadObject string string
  | DownloadFileobj string string
  | ListObjectsV2 string string "token option"

text \<open>
  The boto3 client \<^verbatim>\<open>self._client\<close>. A probe answers \<open>None\<close> when it returns
  normally and \<open>Some e\<close> when it raises \<open>e\<close>.
\<close>

record s3_client =
  head_bucket :: "string \<Rightarrow> error option"
  head_object :: "string \<Rightarrow> string \<Rightarrow> error option"
  download_fileobj :: "string \<Rightarrow> string \<Rightarrow> error + string"
  paginate :: "string \<Rightarrow> string \<Rightarrow> token option \<Rightarrow> error + response list"

text \<open>The backend object: \<^verbatim>\<open>self.path_mapping\<close> (a dict in insertion order) and the client.\<close>

record backend =
  path_mapping :: "(string \<times> string) list option"
  client :: s3_client

text \<open>The state outside the backend: the requests issued so far and the local files.\<close>

record world =
  requests :: "request list"
  files :: "string \<rightharpoonup> string"

subsection \<open>Path mapping, formatting and parsing\<close>

definition map_path :: "backend \<Rightarrow> string \<Rightarrow> string" where
  "map_path self filepath =
     (case path_mapping self of
        None \<Rightarrow> filepath
      | Some items \<Rightarrow> fold (\<lambda>(k, v) fp. str_replace k v fp) items filepath)"

text \<open>\<^verbatim>\<open>re.sub(r'\\+', '/', filepath)\<close>: every maximal run of backslashes becomes one slash.\<close>

function format_path :: "string \<Rightarrow> string" where
  "format_path [] = []"
| "format_path (c # cs) =
     (if c = CHR 0x5C
      then CHR ''/'' # format_path (dropWhile (\<lambda>x. x = CHR 0x5C) cs)
      else c # format_path cs)"
  by pat_completeness auto
termination
  by (relation "measure length") (auto simp: less_Suc_eq_le length_dropWhile_le)

text \<open>
  \<^verbatim>\<open>re.compile('s3://(.+)').match(filepath)\<close>: the match is anchored at the start,
  and the group is the longest run of characters other than a newline after the
  scheme, which must not be empty.
\<close>

definition parse_bucket :: "string \<Rightarrow> string option" where
  "parse_bucket filepath =
     (let grp = takeWhile (\<lambda>c. c \<noteq> CHR 0x0A) (drop 5 filepath)
      in if startswith filepath ''s3://'' \<and> grp \<noteq> [] then Some grp else None)"

definition parse_path :: "backend \<Rightarrow> string \<Rightarrow> error + (string \<times> string)" where
  "parse_path self filepath0 =
     (let filepath = format_path (map_path self filepath0)
      in case parse_bucket filepath of
           None \<Rightarrow> Inl ValueError
         | Some path \<Rightarrow>
             (let path_split = str_split1 CHR ''/'' path;
                  bucket = hd path_split;
                  obj_name = (if length path_split > 1 then path_split ! 1 else [])
              in Inr (bucket, obj_name)))"

subsection \<open>Existence probes and predicates\<close>

definition log_request :: "request \<Rightarrow> world \<Rightarrow> world" where
  "log_request r w = w\<lparr>requests := requests w @ [r]\<rparr>"

text \<open>
  \<^verbatim>\<open>_check_bucket\<close> and \<^verbatim>\<open>_check_object\<close>: a \<open>ClientError\<close> of the probe is caught,
  and the handler runs \<^verbatim>\<open>raise self.check_exception(message)\<close>, where
  \<^verbatim>\<open>self.check_exception\<close> is the class \<^verbatim>\<open>botocore.exceptions.ClientError\<close>. Its
  constructor takes two arguments (\<^verbatim>\<open>error_response\<close>, \<^verbatim>\<open>operation_name\<close>), so the
  call with the message alone raises \<open>TypeError\<close>, and that is the exception which
  leaves the handler. Any other exception of the probe passes through.
\<close>

definition check_bucket :: "backend \<Rightarrow> string \<Rightarrow> world \<Rightarrow> (error + bool) \<times> world" where
  "check_bucket self bucket w =
     (case head_bucket (client self) bucket of
        None \<Rightarrow> (Inr True, log_request (HeadBucket bucket) w)
      | Some e \<Rightarrow>
          (Inl (if e = ClientError then TypeError else e),
           log_request (HeadBucket bucket) w))"

definition check_object ::
  "backend \<Rightarrow> string \<Rightarrow> string \<Rightarrow> world \<Rightarrow> (error + bool) \<times> world" where
  "check_object self bucket obj_name w =
     (case head_object (client self) bucket obj_name of
        None \<Rightarrow> (Inr True, log_request (HeadObject bucket obj_name) w)
      | Some e \<Rightarrow>
          (Inl (if e = ClientError then TypeError else e),
           log_request (HeadObject bucket obj_name) w))"

definition get :: "backend \<Rightarrow> string \<Rightarrow> world \<Rightarrow> (error + string) \<times> world" where
  "get self filepath w =
     (case parse_path self filepath of
        Inl e \<Rightarrow> (Inl e, w)
      | Inr (bucket, obj_name) \<Rightarrow>
          (case check_object self bucket obj_name w of
             (Inl e, w1) \<Rightarrow> (Inl e, w1)
           | (Inr _, w1) \<Rightarrow>
               (download_fileobj (client self) bucket obj_name,
                log_request (DownloadFileobj bucket obj_name) w1)))"

definition exists :: "backend \<Rightarrow> string \<Rightarrow> world \<Rightarrow> (error + bool) \<times> world" where
  "exists self filepath w =
     (case parse_path self filepath of
        Inl e \<Rightarrow> (Inl e, w)
      | Inr (bucket, obj_name) \<Rightarrow> check_object self bucket obj_name w)"

definition isdir :: "backend \<Rightarrow> string \<Rightarrow> world \<Rightarrow> (error + bool) \<times> world" where
  "isdir self filepath w =
     (case parse_path self filepath of
        Inl e \<Rightarrow> (Inl e, w)
      | Inr (bucket, obj_name) \<Rightarrow>
          (case check_bucket self bucket w of
             (Inl e, w1) \<Rightarrow> (Inl e, w1)
           | (Inr ok, w1) \<Rightarrow>
               (if ok \<and> (endswith obj_name ''/'' \<or> obj_name = [])
                then (Inr True, w1) else (Inr False, w1))))"

definition isfile :: "backend \<Rightarrow> string \<Rightarrow> world \<Rightarrow> (error + bool) \<times> world" where
  "isfile self filepath w =
     (case parse_path self filepath of
        Inl e \<Rightarrow> (Inl e, w)
      | Inr (bucket, obj_name) \<Rightarrow>
          (case check_bucket self bucket w of
             (Inl e, w1) \<Rightarrow> (Inl e, w1)
           | (Inr ok, w1) \<Rightarrow>
               (if ok \<and> \<not> endswith obj_name ''/'' \<and> obj_name \<noteq> []
                then (Inr True, w1) else (Inr False, w1))))"

subsection \<open>Scoped local staging\<close>

text \<open>
  \<^verbatim>\<open>os.remove(name)\<close>: the file is deleted, or \<open>FileNotFoundError\<close> is raised when
  there is none.
\<close>

definition os_remove :: "string \<Rightarrow> world \<Rightarrow> (error + unit) \<times> world" where
  "os_remove name w =
     (case files w name of
        None \<Rightarrow> (Inl FileNotFoundError, w)
      | Some _ \<Rightarrow> (Inr (), w\<lparr>files := (files w)(name := None)\<rparr>))"

text \<open>
  The \<^verbatim>\<open>with self.get_local_path(filepath) as path: body\<close> statement as one
  function. \<open>tmp\<close> is the name \<^verbatim>\<open>tempfile.NamedTemporaryFile(delete=False)\<close> picks
  (the operating system's choice, taken as a parameter), and \<open>body\<close> is the block:
  it receives the yielded path and the state and ends normally (\<open>Inr\<close>) or with
  an exception (\<open>Inl\<close>; a cancellation is the exception \<open>KeyboardInterrupt\<close>).
  The \<^verbatim>\<open>finally\<close> clause runs on every way out of the \<^verbatim>\<open>try\<close>; an exception it
  raises itself replaces the pending result.
\<close>

definition get_local_path ::
  "backend \<Rightarrow> string \<Rightarrow> string \<Rightarrow> (string \<Rightarrow> world \<Rightarrow> (error + 'a) \<times> world) \<Rightarrow> world
     \<Rightarrow> (error + 'a) \<times> world" where
  "get_local_path self tmp filepath body w =
     (case isfile self filepath w of
        (Inl e, w1) \<Rightarrow> (Inl e, w1)
      | (Inr ok, w1) \<Rightarrow>
          if \<not> ok then (Inl AssertionError, w1)
          else
            (let w2 = w1\<lparr>files := (files w1)(tmp \<mapsto> [])\<rparr>;
                 (r, w4) =
                   (case get self filepath w2 of
                      (Inl e, w3) \<Rightarrow> (Inl e, w3)
                    | (Inr data, w3) \<Rightarrow>
                        body tmp (w3\<lparr>files := (files w3)(tmp \<mapsto> data)\<rparr>))
             in case os_remove tmp w4 of
                  (Inl e, w5) \<Rightarrow> (Inl e, w5)
                | (Inr _, w5) \<Rightarrow> (r, w5)))"

subsection \<open>Listing\<close>

text \<open>
  The \<^verbatim>\<open>suffix\<close> argument: a string, a tuple of strings, or a value of another
  type (which the second check of \<^verbatim>\<open>list_dir_or_file\<close> rejects).
\<close>

datatype suffix_arg = Str string | Tuple "string list" | Other

fun path_endswith :: "string \<Rightarrow> suffix_arg \<Rightarrow> bool" where
  "path_endswith path (Str s) = endswith path s"
| "path_endswith path (Tuple ss) = list_ex (endswith path) ss"
| "path_endswith path Other = False"

text \<open>
  The state of one traversal: the closure variable \<^verbatim>\<open>duplicate_paths\<close> and the
  values yielded so far, in order.
\<close>

record lstate =
  duplicate_paths :: "string set"
  yielded :: "string list"

definition yield :: "string \<Rightarrow> lstate \<Rightarrow> lstate" where
  "yield x st = st\<lparr>yielded := yielded st @ [x]\<rparr>"

text \<open>\<^verbatim>\<open>content['Key'][len(root):]\<close>.\<close>

definition rel_path :: "string \<Rightarrow> string \<Rightarrow> string" where
  "rel_path root key = drop (length root) key"

text \<open>\<^verbatim>\<open>[item for item in path.replace(root, '').split('/') if item]\<close>.\<close>

definition sparse_path :: "string \<Rightarrow> string \<Rightarrow> string list" where
  "sparse_path root path =
     filter (\<lambda>item. item \<noteq> []) (str_split CHR ''/'' (str_replace root [] path))"

text \<open>One round of \<^verbatim>\<open>for lvl in range(level - 1)\<close>.\<close>

definition dir_step :: "string list \<Rightarrow> nat \<Rightarrow> lstate \<Rightarrow> lstate" where
  "dir_step sp lvl st =
     (let rel_dir = str_join ''/'' (take (lvl + 1) sp);
          st1 = (if rel_dir \<notin> duplicate_paths st then yield (rel_dir @ ''/'') st else st)
      in st1\<lparr>duplicate_paths := insert rel_dir (duplicate_paths st1)\<rparr>)"

text \<open>The body of \<^verbatim>\<open>for content in response['Contents']\<close> for one key.\<close>

definition process_content ::
  "string \<Rightarrow> bool \<Rightarrow> bool \<Rightarrow> suffix_arg option \<Rightarrow> bool \<Rightarrow> string \<Rightarrow> lstate \<Rightarrow> lstate" where
  "process_content root list_dir list_file suffix recursive key st =
     (let path = rel_path root key;
          sp = sparse_path root path;
          level = length sp
      in if level = 0 then st
         else if level > 1 \<and> \<not> recursive then
           (if list_dir \<and> hd sp \<notin> duplicate_paths st
            then (yield (hd sp @ ''/'') st)
                   \<lparr>duplicate_paths := insert (hd sp) (duplicate_paths st)\<rparr>
            else st)
         else
           (let st1 = (if list_dir then fold (dir_step sp) [0..<level - 1] st else st)
            in if list_file \<and>
                  (case suffix of None \<Rightarrow> True | Some s \<Rightarrow> path_endswith path s)
               then yield path st1 else st1))"

text \<open>
  The body of \<^verbatim>\<open>for response in response_iterator\<close>: the token of the response,
  when it has one, overwrites \<^verbatim>\<open>next_token\<close>, and the keys are processed when the
  status is 200 and \<^verbatim>\<open>'Contents'\<close> is present.
\<close>

definition process_response ::
  "string \<Rightarrow> bool \<Rightarrow> bool \<Rightarrow> suffix_arg option \<Rightarrow> bool \<Rightarrow> response
     \<Rightarrow> token option \<times> lstate \<Rightarrow> token option \<times> lstate" where
  "process_response root list_dir list_file suffix recursive response acc =
     (let next_token = (case NextContinuationToken response of
                          Some t \<Rightarrow> Some t
                        | None \<Rightarrow> fst acc);
          st = snd acc
      in (next_token,
          (case Contents response of
             Some keys \<Rightarrow>
               (if HTTPStatusCode response = 200
                then fold (process_content root list_dir list_file suffix recursive) keys st
                else st)
           | None \<Rightarrow> st)))"

text \<open>
  The generator \<^verbatim>\<open>_list_dir_or_file\<close>, consumed to its end. It delegates to a
  new generator of itself (\<^verbatim>\<open>yield from\<close>) with the last continuation token it
  saw, so every paginator call runs one generator frame deeper than the one
  before. \<open>depth\<close> is the number of nested generator frames the recursion limit
  of the interpreter still leaves room for: the frame that does not fit raises
  \<open>RecursionError\<close> before it issues its request. An exception of the paginator
  ends the run with that exception. A run that ends with an exception is
  \<open>Inl\<close> of it; what it had yielded before is not kept.
\<close>

fun list_dir_or_file_gen ::
  "nat \<Rightarrow> backend \<Rightarrow> string \<Rightarrow> string \<Rightarrow> string \<Rightarrow> bool \<Rightarrow> bool \<Rightarrow> suffix_arg option \<Rightarrow> bool
     \<Rightarrow> token option \<Rightarrow> lstate \<Rightarrow> world \<Rightarrow> (error + lstate) \<times> world" where
  "list_dir_or_file_gen 0 self bucket root dir_path list_dir list_file suffix recursive
     start_token st w = (Inl RecursionError, w)"
| "list_dir_or_file_gen (Suc depth) self bucket root dir_path list_dir list_file suffix recursive
     start_token st w =
     (let w1 = log_request (ListObjectsV2 bucket dir_path start_token) w
      in case paginate (client self) bucket dir_path start_token of
           Inl e \<Rightarrow> (Inl e, w1)
         | Inr response_iterator \<Rightarrow>
             (case fold (process_response root list_dir list_file suffix recursive)
                        response_iterator (None, st) of
                (None, st1) \<Rightarrow> (Inr st1, w1)
              | (Some next_token, st1) \<Rightarrow>
                  list_dir_or_file_gen depth self bucket root dir_path list_dir list_file suffix
                    recursive (Some next_token) st1 w1))"

text \<open>
  \<^verbatim>\<open>list_dir_or_file\<close> followed by the consumption of the generator it returns.
  The two option checks and the parsing run when the function is called, before
  the generator is created.
\<close>

definition list_dir_or_file ::
  "nat \<Rightarrow> backend \<Rightarrow> string \<Rightarrow> bool \<Rightarrow> bool \<Rightarrow> suffix_arg option \<Rightarrow> bool \<Rightarrow> world
     \<Rightarrow> (error + string list) \<times> world" where
  "list_dir_or_file depth self dir_path0 list_dir list_file suffix recursive w =
     (if list_dir \<and> suffix \<noteq> None then (Inl TypeError, w)
      else if suffix \<noteq> None \<and> suffix = Some Other then (Inl TypeError, w)
      else
        (case parse_path self dir_path0 of
           Inl e \<Rightarrow> (Inl e, w)
         | Inr (bucket, obj_name) \<Rightarrow>
             (let dir_path = (if obj_name \<noteq> [] \<and> \<not> endswith obj_name ''/''
                              then obj_name @ ''/'' else obj_name);
                  root = dir_path
              in case list_dir_or_file_gen depth self bucket root dir_path list_dir list_file
                        suffix recursive None
                        \<lparr>duplicate_paths = {}, yielded = []\<rparr> w of
                   (Inl e, w1) \<Rightarrow> (Inl e, w1)
                 | (Inr st, w1) \<Rightarrow> (Inr (yielded st), w1))))"

subsection \<open>A paged object store\<close>

text \<open>
  Modelled from the spec: the external object-store client, which is not part of
  the source (\<^verbatim>\<open>listObjectsPaginated(bucket, prefix, pageSize, continuationToken)
  -> (keys, nextToken)\<close>, \<^verbatim>\<open>headBucket\<close>, \<^verbatim>\<open>headObject\<close>, \<^verbatim>\<open>getObject\<close>). The bucket
  \<open>name\<close> holds the keys of \<open>pages\<close>, and the store hands them out page by page:
  a request carries the index of the page it asks for as its token, a page that
  is not the last one carries the token of the next, and a page without a key
  under the prefix has no \<^verbatim>\<open>'Contents'\<close>. Objects have empty contents.
\<close>

definition page_index :: "token option \<Rightarrow> nat" where
  "page_index start_token = (case start_token of None \<Rightarrow> 0 | Some t \<Rightarrow> t)"

definition paged_responses :: "string list list \<Rightarrow> string \<Rightarrow> token option \<Rightarrow> response list" where
  "paged_responses pages pfx start_token =
     (let ps = map (filter (\<lambda>key. startswith key pfx)) pages;
          i = page_index start_token
      in [\<lparr>NextContinuationToken = (if Suc i < length ps then Some (Suc i) else None),
           HTTPStatusCode = 200,
           Contents = (if i < length ps \<and> ps ! i \<noteq> [] then Some (ps ! i) else None)\<rparr>])"

definition paged_store :: "string \<Rightarrow> string list list \<Rightarrow> s3_client" where
  "paged_store name pages =
     \<lparr>head_bucket = (\<lambda>b. if b = name then None else Some ClientError),
      head_object = (\<lambda>b k. if b = name \<and> k \<in> set (concat pages) then None
                            else Some ClientError),
      download_fileobj = (\<lambda>b k. if b = name \<and> k \<in> set (concat pages) then Inr []
                                 else Inl ClientError),
      paginate = (\<lambda>b pfx t. if b = name then Inr (paged_responses pages pfx t)
                             else Inl ClientError)\<rparr>"

subsection \<open>Notions used in the proofs about listing\<close>

text \<open>
  The traversal root \<^verbatim>\<open>list_dir_or_file\<close> computes from the parsed key, and what
  one traversal yields for a sequence of keys, from an empty \<open>duplicate_paths\<close>.
\<close>

definition root_prefix :: "string \<Rightarrow> string" where
  "root_prefix obj_name =
     (if obj_name \<noteq> [] \<and> \<not> endswith obj_name ''/'' then obj_name @ ''/'' else obj_name)"

definition traversal ::
  "string \<Rightarrow> bool \<Rightarrow> bool \<Rightarrow> suffix_arg option \<Rightarrow> bool \<Rightarrow> string list \<Rightarrow> string list" where
  "traversal root list_dir list_file suffix recursive keys =
     yielded (fold (process_content root list_dir list_file suffix recursive) keys
                \<lparr>duplicate_paths = {}, yielded = []\<rparr>)"

text \<open>
  \<open>process_content\<close> taken apart: the directory names a key brings up, in order,
  each recorded in \<open>duplicate_paths\<close> and yielded when it is new, and the file
  entry the key yields, if any.
\<close>

definition add_dir :: "string \<Rightarrow> lstate \<Rightarrow> lstate" where
  "add_dir d st =
     (if d \<notin> duplicate_paths st then yield (d @ ''/'') st else st)
       \<lparr>duplicate_paths := insert d (duplicate_paths st)\<rparr>"

definition content_dirs :: "string \<Rightarrow> bool \<Rightarrow> bool \<Rightarrow> string \<Rightarrow> string list" where
  "content_dirs root list_dir recursive key =
     (let sp = sparse_path root (rel_path root key);
          level = length sp
      in if level = 0 then []
         else if level > 1 \<and> \<not> recursive then (if list_dir then [hd sp] else [])
         else if list_dir
              then map (\<lambda>lvl. str_join ''/'' (take (lvl + 1) sp)) [0..<level - 1]
              else [])"

definition content_file ::
  "string \<Rightarrow> bool \<Rightarrow> suffix_arg option \<Rightarrow> bool \<Rightarrow> string \<Rightarrow> string option" where
  "content_file root list_file suffix recursive key =
     (let path = rel_path root key;
          level = length (sparse_path root path)
      in if level = 0 then None
         else if level > 1 \<and> \<not> recursive then None
         else if list_file \<and> (case suffix of None \<Rightarrow> True | Some s \<Rightarrow> path_endswith path s)
              then Some path else None)"

definition yield_opt :: "string option \<Rightarrow> lstate \<Rightarrow> lstate" where
  "yield_opt f st = (case f of None \<Rightarrow> st | Some p \<Rightarrow> yield p st)"

definition content_entries ::
  "string \<Rightarrow> bool \<Rightarrow> bool \<Rightarrow> suffix_arg option \<Rightarrow> bool \<Rightarrow> string \<Rightarrow> string set" where
  "content_entries root list_dir list_file suffix recursive key =
     (\<lambda>d. d @ ''/'') ` set (content_dirs root list_dir recursive key)
       \<union> set_option (content_file root list_file suffix recursive key)"

text \<open>
  Two invariants of a traversal: every recorded directory has been yielded, and
  the entries ending with a slash are pairwise distinct and recorded.
\<close>

definition dirs_yielded :: "lstate \<Rightarrow> bool" where
  "dirs_yielded st = (\<forall>d\<in>duplicate_paths st. d @ ''/'' \<in> set (yielded st))"

definition dirs_distinct :: "lstate \<Rightarrow> bool" where
  "dirs_distinct st =
     (distinct (filter (\<lambda>e. endswith e ''/'') (yielded st))
      \<and> (\<forall>e\<in>set (yielded st). endswith e ''/'' \<longrightarrow> butlast e \<in> duplicate_paths st))"

section \<open>Path parsing\<close>

lemma parse_bucket_Some:
  assumes "parse_bucket fp = Some grp"
  shows "grp \<noteq> [] \<and> hd grp = fp ! 5 \<and> take 5 fp = ''s3://'' \<and> 5 < length fp"
proof -
  from assms have g: "grp = takeWhile (\<lambda>c. c \<noteq> CHR 0x0A) (drop 5 fp)" and ne: "grp \<noteq> []"
    and sw: "take 5 fp = ''s3://''"
    by (simp_all add: parse_bucket_def Let_def startswith_def eval_nat_numeral split: if_splits)
  from g ne have d: "drop 5 fp \<noteq> []" by auto
  then have len: "5 < length fp" by simp
  from g ne d have "hd grp = hd (drop 5 fp)"
    by (cases "drop 5 fp") (auto split: if_splits)
  with len have "hd grp = fp ! 5" by (simp add: hd_drop_conv_nth)
  with ne sw len show ?thesis by simp
qed

lemma hd_str_split1:
  assumes ne: "grp \<noteq> []"
  shows "CHR ''/'' \<notin> set (hd (str_split1 CHR ''/'' grp)) \<and>
     (hd (str_split1 CHR ''/'' grp) = [] \<longleftrightarrow> hd grp = CHR ''/'')"
proof (cases "dropWhile (\<lambda>c. c \<noteq> CHR ''/'') grp")
  case Nil
  then have all: "\<forall>c\<in>set grp. c \<noteq> CHR ''/''" by (simp only: dropWhile_eq_Nil_conv)
  have h: "hd (str_split1 CHR ''/'' grp) = grp"
    by (simp only: str_split1_def Nil list.case list.sel)
  from ne have "hd grp \<in> set grp" by simp
  with all have n1: "hd grp \<noteq> CHR ''/''" by blast
  from all have n2: "CHR ''/'' \<notin> set grp" by blast
  from n1 n2 ne h show ?thesis by simp
next
  case (Cons a rest)
  have h: "hd (str_split1 CHR ''/'' grp) = takeWhile (\<lambda>c. c \<noteq> CHR ''/'') grp"
    by (simp only: str_split1_def Cons list.case list.sel)
  have 1: "CHR ''/'' \<notin> set (takeWhile (\<lambda>c. c \<noteq> CHR ''/'') grp)"
    using set_takeWhileD by fastforce
  obtain x xs where g: "grp = x # xs" using ne by (cases grp) simp_all
  have 2: "takeWhile (\<lambda>c. c \<noteq> CHR ''/'') grp = [] \<longleftrightarrow> hd grp = CHR ''/''"
    unfolding g by simp
  from 1 2 h show ?thesis by simp
qed

lemma startswith_s3_slash:
  "take 5 fp = ''s3://'' \<Longrightarrow> 5 < length fp \<Longrightarrow> startswith fp ''s3:///'' \<longleftrightarrow> fp ! 5 = CHR ''/''"
proof -
  assume a: "take 5 fp = ''s3://''" and l: "5 < length fp"
  have "take 6 fp = take 5 fp @ [fp ! 5]"
    using l take_Suc_conv_app_nth[of 5 fp] by (simp add: eval_nat_numeral)
  then have "startswith fp ''s3:///'' \<longleftrightarrow> take 5 fp @ [fp ! 5] = ''s3:///''"
    by (simp add: startswith_def eval_nat_numeral)
  with a show ?thesis by simp
qed

text \<open>
  Claim C5, as the code has it. The three examples of the specification hold:
  \<^verbatim>\<open>s3://bucket/a/b\<close> parses to \<open>(bucket, a/b)\<close>, \<^verbatim>\<open>s3://bucket\<close> to
  \<open>(bucket, '')\<close>, and \<^verbatim>\<open>not-s3-path\<close> raises \<open>ValueError\<close> (the specification's
  \<^verbatim>\<open>InvalidPathError\<close>). For every backend and every path, parsing raises
  \<open>ValueError\<close> or returns a bucket and a key; the bucket has no slash, and it
  is empty exactly when the formatted path starts with \<^verbatim>\<open>s3:///\<close>.
\<close>

theorem parse_path_cases:
  "parse_path \<lparr>path_mapping = None, client = c\<rparr> ''s3://bucket/a/b'' = Inr (''bucket'', ''a/b'')
   \<and> parse_path \<lparr>path_mapping = None, client = c\<rparr> ''s3://bucket'' = Inr (''bucket'', [])
   \<and> parse_path \<lparr>path_mapping = None, client = c\<rparr> ''not-s3-path'' = Inl ValueError
   \<and> (parse_path self p = Inl ValueError
      \<or> (\<exists>bucket key. parse_path self p = Inr (bucket, key)
            \<and> CHR ''/'' \<notin> set bucket
            \<and> (bucket = [] \<longleftrightarrow> startswith (format_path (map_path self p)) ''s3:///'')))"
proof -
  have 1: "parse_path \<lparr>path_mapping = None, client = c\<rparr> ''s3://bucket/a/b'' = Inr (''bucket'', ''a/b'')"
    by (simp add: parse_path_def parse_bucket_def map_path_def startswith_def str_split1_def)
  have 2: "parse_path \<lparr>path_mapping = None, client = c\<rparr> ''s3://bucket'' = Inr (''bucket'', [])"
    by (simp add: parse_path_def parse_bucket_def map_path_def startswith_def str_split1_def)
  have 3: "parse_path \<lparr>path_mapping = None, client = c\<rparr> ''not-s3-path'' = Inl ValueError"
    by (simp add: parse_path_def parse_bucket_def map_path_def startswith_def str_split1_def)
  have 4: "parse_path self p = Inl ValueError
      \<or> (\<exists>bucket key. parse_path self p = Inr (bucket, key)
            \<and> CHR ''/'' \<notin> set bucket
            \<and> (bucket = [] \<longleftrightarrow> startswith (format_path (map_path self p)) ''s3:///''))"
  proof (cases "parse_bucket (format_path (map_path self p))")
    case None
    then show ?thesis by (simp add: parse_path_def)
  next
    case (Some grp)
    from parse_bucket_Some[OF Some] have ne: "grp \<noteq> []"
      and hd: "hd grp = format_path (map_path self p) ! 5"
      and tk: "take 5 (format_path (map_path self p)) = ''s3://''"
      and len: "5 < length (format_path (map_path self p))" by simp_all
    from Some have pp: "parse_path self p =
        Inr (hd (str_split1 CHR ''/'' grp),
             if length (str_split1 CHR ''/'' grp) > 1 then str_split1 CHR ''/'' grp ! 1 else [])"
      by (simp add: parse_path_def Let_def)
    have a: "CHR ''/'' \<notin> set (hd (str_split1 CHR ''/'' grp))"
      using hd_str_split1[OF ne] by simp
    have "(hd (str_split1 CHR ''/'' grp) = []) = (hd grp = CHR ''/'')"
      using hd_str_split1[OF ne] by simp
    also have "\<dots> = startswith (format_path (map_path self p)) ''s3:///''"
      using startswith_s3_slash[OF tk len] hd by simp
    finally have b: "(hd (str_split1 CHR ''/'' grp) = [])
        = startswith (format_path (map_path self p)) ''s3:///''" .
    show ?thesis
      apply (rule disjI2)
      apply (subst pp)
      apply (rule exI, rule exI)
      apply (rule conjI, rule refl)
      apply (rule conjI, rule a)
      apply (rule b)
      done
  qed
  show ?thesis by (rule conjI[OF 1 conjI[OF 2 conjI[OF 3 4]]])
qed

theorem parse_path_cases_witness:
  "parse_path \<lparr>path_mapping = None, client = paged_store ''bucket'' []\<rparr> ''s3://bucket/a/b''
     = Inr (''bucket'', ''a/b'')
   \<and> parse_path \<lparr>path_mapping = None, client = paged_store ''bucket'' []\<rparr> ''s3://bucket''
     = Inr (''bucket'', [])
   \<and> parse_path \<lparr>path_mapping = None, client = paged_store ''bucket'' []\<rparr> ''not-s3-path''
     = Inl ValueError
   \<and> (parse_path \<lparr>path_mapping = None, client = paged_store ''bucket'' []\<rparr> ''s3:///k''
         = Inl ValueError
      \<or> (\<exists>bucket key.
            parse_path \<lparr>path_mapping = None, client = paged_store ''bucket'' []\<rparr> ''s3:///k''
              = Inr (bucket, key)
            \<and> CHR ''/'' \<notin> set bucket
            \<and> (bucket = [] \<longleftrightarrow>
                 startswith (format_path (map_path
                   \<lparr>path_mapping = None, client = paged_store ''bucket'' []\<rparr> ''s3:///k''))
                   ''s3:///'')))"
  by (rule parse_path_cases)

text \<open>
  Claim C5 as stated fails: a path with a slash right after the scheme parses,
  and its bucket is the empty string.
\<close>

theorem parse_path_empty_bucket:
  "parse_path \<lparr>path_mapping = None, client = paged_store ''bucket'' []\<rparr> ''s3:///k''
     = Inr ([], ''k'')"
  by (simp add: parse_path_def parse_bucket_def map_path_def startswith_def str_split1_def)

section \<open>Listing options\<close>

text \<open>
  Claim C6: \<^verbatim>\<open>list_dir=True\<close> together with a suffix that is not \<^verbatim>\<open>None\<close> raises
  \<open>TypeError\<close> (the specification's \<^verbatim>\<open>ConfigurationError\<close>) for every backend,
  path, remaining argument and store, and the state is returned as it was: no
  request has been issued.
\<close>

theorem list_dir_with_suffix_fails:
  "list_dir_or_file depth self dir_path True list_file (Some s) recursive w
     = (Inl TypeError, w)"
  by (simp add: list_dir_or_file_def)

section \<open>The file predicate\<close>

text \<open>
  Claim C10: when the path parses and the head-bucket probe succeeds, \<^verbatim>\<open>isfile\<close>
  returns whether the key is non-empty and does not end with a slash, and the
  only request it issues is that head-bucket probe: no object is probed.
\<close>

theorem isfile_textual:
  assumes "parse_path self filepath = Inr (bucket, key)"
    and "head_bucket (client self) bucket = None"
  shows "isfile self filepath w
           = (Inr (key \<noteq> [] \<and> \<not> endswith key ''/''), log_request (HeadBucket bucket) w)"
  using assms by (auto simp: isfile_def check_bucket_def)

theorem isfile_textual_witness:
  "parse_path \<lparr>path_mapping = None, client = paged_store ''bucket'' [[''d/x.txt'']]\<rparr>
       ''s3://bucket/missing'' = Inr (''bucket'', ''missing'')
   \<and> head_bucket (client \<lparr>path_mapping = None, client = paged_store ''bucket'' [[''d/x.txt'']]\<rparr>)
       ''bucket'' = None
   \<and> head_object (client \<lparr>path_mapping = None, client = paged_store ''bucket'' [[''d/x.txt'']]\<rparr>)
       ''bucket'' ''missing'' = Some ClientError
   \<and> isfile \<lparr>path_mapping = None, client = paged_store ''bucket'' [[''d/x.txt'']]\<rparr>
       ''s3://bucket/missing'' \<lparr>requests = [], files = Map.empty\<rparr>
     = (Inr True, \<lparr>requests = [HeadBucket ''bucket''], files = Map.empty\<rparr>)"
proof -
  let ?self = "\<lparr>path_mapping = None, client = paged_store ''bucket'' [[''d/x.txt'']]\<rparr>"
  have p: "parse_path ?self ''s3://bucket/missing'' = Inr (''bucket'', ''missing'')"
    by (simp add: parse_path_def parse_bucket_def map_path_def startswith_def str_split1_def)
  have b: "head_bucket (client ?self) ''bucket'' = None"
    by (simp add: paged_store_def)
  have ob: "head_object (client ?self) ''bucket'' ''missing'' = Some ClientError"
    by (simp add: paged_store_def)
  have "isfile ?self ''s3://bucket/missing'' \<lparr>requests = [], files = Map.empty\<rparr>
     = (Inr True, \<lparr>requests = [HeadBucket ''bucket''], files = Map.empty\<rparr>)"
    using isfile_textual [OF p b, of "\<lparr>requests = [], files = Map.empty\<rparr>"]
    by (simp add: log_request_def endswith_def)
  with p b ob show ?thesis by simp
qed

section \<open>The existence predicate\<close>

text \<open>
  \<^verbatim>\<open>exists\<close> returns what \<^verbatim>\<open>_check_object\<close> returns, and that is \<open>True\<close> or an
  exception: no argument makes it return \<open>False\<close>.
\<close>

lemma exists_never_False: "fst (exists self filepath w) \<noteq> Inr False"
  by (simp add: exists_def check_object_def split: sum.splits prod.splits option.splits)

text \<open>
  Claim C7 at a key the store does not hold: the bucket \<^verbatim>\<open>bucket\<close> holds only
  \<^verbatim>\<open>d/x.txt\<close>, the head-object probe for \<^verbatim>\<open>missing\<close> raises \<open>ClientError\<close>, and
  \<^verbatim>\<open>exists('s3://bucket/missing')\<close> ends with an exception, the \<open>TypeError\<close> of the
  re-raise in \<^verbatim>\<open>_check_object\<close>, where the docstring of \<^verbatim>\<open>exists\<close> and the claim
  say it returns \<open>False\<close>.
\<close>

theorem exists_missing_object_raises:
  "exists \<lparr>path_mapping = None, client = paged_store ''bucket'' [[''d/x.txt'']]\<rparr>
       ''s3://bucket/missing'' \<lparr>requests = [], files = Map.empty\<rparr>
     = (Inl TypeError, \<lparr>requests = [HeadObject ''bucket'' ''missing''], files = Map.empty\<rparr>)"
  by (simp add: exists_def check_object_def parse_path_def parse_bucket_def map_path_def
      startswith_def str_split1_def paged_store_def log_request_def)

section \<open>Scoped local staging\<close>





lemma os_remove_gone: "files (snd (os_remove name w)) name = None"
  by (simp add: os_remove_def split: option.splits)

text \<open>
  Claim C9: once the assertion of \<^verbatim>\<open>get_local_path\<close> has passed, the temporary
  file does not exist when the statement is left, whatever the block does and
  however it ends (a value, an exception, a cancellation), and also when the
  download fails before the path is yielded.
\<close>

theorem get_local_path_removes_tmp:
  assumes "fst (isfile self filepath w) = Inr True"
  shows "files (snd (get_local_path self tmp filepath body w)) tmp = None"
proof -
  obtain w1 where i: "isfile self filepath w = (Inr True, w1)"
    using assms by (cases "isfile self filepath w") simp
  have fin: "\<And>(x :: error + unit) (r :: error + 'a) w4.
      files (snd (case x of
                    Inl e \<Rightarrow> (Inl e, snd (os_remove tmp w4))
                  | Inr u \<Rightarrow> (r, snd (os_remove tmp w4)))) tmp = None"
    subgoal for x r w4 by (cases x) (simp_all add: os_remove_gone)
    done
  show ?thesis
    by (simp add: get_local_path_def i Let_def case_prod_beta fin)
qed

theorem get_local_path_removes_tmp_witness:
  "fst (isfile \<lparr>path_mapping = None, client = paged_store ''bucket'' [[''d/x.txt'']]\<rparr>
          ''s3://bucket/d/x.txt'' \<lparr>requests = [], files = Map.empty\<rparr>) = Inr True
   \<and> files (snd (get_local_path
          \<lparr>path_mapping = None, client = paged_store ''bucket'' [[''d/x.txt'']]\<rparr>
          ''/tmp/tmpfile'' ''s3://bucket/d/x.txt''
          (\<lambda>path w. (Inl KeyboardInterrupt :: error + unit, w))
          \<lparr>requests = [], files = Map.empty\<rparr>)) ''/tmp/tmpfile'' = None"
proof -
  let ?self = "\<lparr>path_mapping = None, client = paged_store ''bucket'' [[''d/x.txt'']]\<rparr>"
  have h: "fst (isfile ?self ''s3://bucket/d/x.txt'' \<lparr>requests = [], files = Map.empty\<rparr>)
             = Inr True"
    by (simp add: isfile_def check_bucket_def parse_path_def parse_bucket_def map_path_def
        startswith_def endswith_def str_split1_def paged_store_def log_request_def)
  from h get_local_path_removes_tmp [OF h] show ?thesis by simp
qed

section \<open>Listing\<close>

subsection \<open>The content loop as directories and a file\<close>

lemma dir_step_add_dir:
  "dir_step sp = (\<lambda>lvl. add_dir (str_join ''/'' (take (lvl + 1) sp)))"
  by (rule ext, rule ext) (simp add: dir_step_def add_dir_def Let_def yield_def)

lemma fold_dir_step:
  "fold (dir_step sp) ls st = fold add_dir (map (\<lambda>lvl. str_join ''/'' (take (lvl + 1) sp)) ls) st"
  by (simp add: fold_map comp_def dir_step_add_dir)

lemma add_dir_known: "d \<in> duplicate_paths st \<Longrightarrow> add_dir d st = st"
  by (simp add: add_dir_def insert_absorb)

lemma add_dir_new:
  "d \<notin> duplicate_paths st \<Longrightarrow>
     add_dir d st = (yield (d @ ''/'') st)\<lparr>duplicate_paths := insert d (duplicate_paths st)\<rparr>"
  by (simp add: add_dir_def)

lemma process_content_decomp:
  "process_content root list_dir list_file suffix recursive key st =
     yield_opt (content_file root list_file suffix recursive key)
       (fold add_dir (content_dirs root list_dir recursive key) st)"
proof (cases "hd (sparse_path root (rel_path root key)) \<in> duplicate_paths st")
  case True
  then show ?thesis
    by (simp add: process_content_def content_file_def content_dirs_def yield_opt_def Let_def
        fold_dir_step add_dir_known)
next
  case False
  then show ?thesis
    by (simp add: process_content_def content_file_def content_dirs_def yield_opt_def Let_def
        fold_dir_step add_dir_new)
qed

subsection \<open>The set of entries does not depend on the order of the keys\<close>

lemma add_dir_set:
  assumes "dirs_yielded st"
  shows "set (yielded (add_dir d st)) = insert (d @ ''/'') (set (yielded st))"
    and "dirs_yielded (add_dir d st)"
proof -
  show "set (yielded (add_dir d st)) = insert (d @ ''/'') (set (yielded st))"
  proof (cases "d \<in> duplicate_paths st")
    case True
    with assms have "d @ ''/'' \<in> set (yielded st)" by (simp add: dirs_yielded_def)
    with True show ?thesis by (simp add: add_dir_known insert_absorb)
  next
    case False
    then show ?thesis by (simp add: add_dir_new yield_def)
  qed
  show "dirs_yielded (add_dir d st)"
  proof (cases "d \<in> duplicate_paths st")
    case True
    with assms show ?thesis by (simp add: add_dir_known)
  next
    case False
    with assms show ?thesis by (simp add: add_dir_new yield_def dirs_yielded_def)
  qed
qed

lemma fold_add_dir_set:
  "dirs_yielded st \<Longrightarrow>
     set (yielded (fold add_dir ds st)) = set (yielded st) \<union> (\<lambda>d. d @ ''/'') ` set ds
     \<and> dirs_yielded (fold add_dir ds st)"
proof (induction ds arbitrary: st)
  case Nil
  then show ?case by simp
next
  case (Cons d ds)
  from Cons.prems have 1: "set (yielded (add_dir d st)) = insert (d @ ''/'') (set (yielded st))"
    and 2: "dirs_yielded (add_dir d st)" by (rule add_dir_set)+
  from Cons.IH[OF 2] 1 show ?case by auto
qed

lemma yield_opt_set:
  "set (yielded (yield_opt f st)) = set (yielded st) \<union> set_option f"
  "dirs_yielded st \<Longrightarrow> dirs_yielded (yield_opt f st)"
  by (cases f; simp add: yield_opt_def yield_def dirs_yielded_def)+

lemma process_content_set:
  assumes "dirs_yielded st"
  shows "set (yielded (process_content root list_dir list_file suffix recursive key st))
           = set (yielded st) \<union> content_entries root list_dir list_file suffix recursive key"
    and "dirs_yielded (process_content root list_dir list_file suffix recursive key st)"
  using fold_add_dir_set[OF assms, of "content_dirs root list_dir recursive key"]
  by (simp_all add: process_content_decomp yield_opt_set content_entries_def Un_assoc)

lemma fold_process_content_set:
  "dirs_yielded st \<Longrightarrow>
     set (yielded (fold (process_content root list_dir list_file suffix recursive) keys st))
       = set (yielded st)
           \<union> (\<Union>key\<in>set keys. content_entries root list_dir list_file suffix recursive key)
     \<and> dirs_yielded (fold (process_content root list_dir list_file suffix recursive) keys st)"
proof (induction keys arbitrary: st)
  case Nil
  then show ?case by simp
next
  case (Cons key keys)
  note s = process_content_set[OF Cons.prems, of root list_dir list_file suffix recursive key]
  from Cons.IH[OF s(2)] s(1) show ?case by auto
qed

lemma traversal_set:
  "set (traversal root list_dir list_file suffix recursive keys)
     = (\<Union>key\<in>set keys. content_entries root list_dir list_file suffix recursive key)"
proof -
  have "dirs_yielded \<lparr>duplicate_paths = {}, yielded = []\<rparr>" by (simp add: dirs_yielded_def)
  from fold_process_content_set[OF this] show ?thesis by (simp add: traversal_def)
qed

subsection \<open>Entries ending with a slash\<close>

lemma endswith_slash: "endswith s ''/'' \<longleftrightarrow> s \<noteq> [] \<and> last s = CHR ''/''"
proof (cases s rule: rev_cases)
  case Nil
  then show ?thesis by (simp add: endswith_def)
next
  case (snoc xs x)
  then show ?thesis by (auto simp: endswith_def)
qed

lemma add_dir_distinct:
  assumes "dirs_distinct st"
  shows "dirs_distinct (add_dir d st)"
proof (cases "d \<in> duplicate_paths st")
  case True
  with assms show ?thesis by (simp add: add_dir_known)
next
  case False
  have "d @ ''/'' \<notin> set (yielded st)"
  proof
    assume "d @ ''/'' \<in> set (yielded st)"
    with assms have "butlast (d @ ''/'') \<in> duplicate_paths st"
      by (auto simp: dirs_distinct_def endswith_slash)
    with False show False by simp
  qed
  with assms False show ?thesis
    by (auto simp: add_dir_new yield_def dirs_distinct_def endswith_slash)
qed

lemma fold_add_dir_distinct:
  "dirs_distinct st \<Longrightarrow> dirs_distinct (fold add_dir ds st)"
  by (induction ds arbitrary: st) (simp_all add: add_dir_distinct)

lemma sparse_path_Nil: "sparse_path root [] = []"
  by (simp add: sparse_path_def str_replace_def)

lemma content_file_Some:
  assumes "content_file root list_file suffix recursive key = Some p"
  shows "p = rel_path root key \<and> p \<noteq> []"
proof -
  from assms have p: "p = rel_path root key" and l: "length (sparse_path root p) \<noteq> 0"
    by (auto simp: content_file_def Let_def split: if_splits)
  from l have "p \<noteq> []" using sparse_path_Nil by auto
  with p show ?thesis by simp
qed

lemma content_file_not_slash:
  assumes "\<not> endswith key ''/''"
    and "content_file root list_file suffix recursive key = Some p"
  shows "\<not> endswith p ''/''"
proof -
  from content_file_Some[OF assms(2)] have p0: "p = rel_path root key" and ne: "p \<noteq> []"
    by blast+
  from p0 have p: "p = drop (length root) key" by (simp only: rel_path_def)
  from ne have "drop (length root) key \<noteq> []" unfolding p .
  then have "length root < length key" by simp
  then have "last p = last key" unfolding p by (rule last_drop)
  moreover from p ne have "key \<noteq> []" by auto
  ultimately show ?thesis using assms(1) ne by (simp add: endswith_slash)
qed

lemma process_content_distinct:
  assumes "dirs_distinct st" and "\<not> endswith key ''/''"
  shows "dirs_distinct (process_content root list_dir list_file suffix recursive key st)"
proof -
  let ?st = "fold add_dir (content_dirs root list_dir recursive key) st"
  have d: "dirs_distinct ?st" using assms(1) by (rule fold_add_dir_distinct)
  show ?thesis
  proof (cases "content_file root list_file suffix recursive key")
    case None
    with d show ?thesis by (simp add: process_content_decomp yield_opt_def)
  next
    case (Some p)
    from content_file_not_slash[OF assms(2) Some] have "\<not> endswith p ''/''" .
    with d have "dirs_distinct (yield p ?st)"
      by (simp add: dirs_distinct_def yield_def)
    with Some show ?thesis by (simp add: process_content_decomp yield_opt_def)
  qed
qed

lemma fold_process_content_distinct:
  "dirs_distinct st \<Longrightarrow> \<forall>key\<in>set keys. \<not> endswith key ''/'' \<Longrightarrow>
     dirs_distinct (fold (process_content root list_dir list_file suffix recursive) keys st)"
  by (induction keys arbitrary: st) (simp_all add: process_content_distinct)

lemma traversal_distinct:
  assumes "\<forall>key\<in>set keys. \<not> endswith key ''/''"
  shows "distinct (filter (\<lambda>e. endswith e ''/'')
           (traversal root list_dir list_file suffix recursive keys))"
proof -
  have "dirs_distinct \<lparr>duplicate_paths = {}, yielded = []\<rparr>" by (simp add: dirs_distinct_def)
  from fold_process_content_distinct[OF this assms] show ?thesis
    by (simp add: traversal_def dirs_distinct_def)
qed

subsection \<open>Traversal of a paged store\<close>

text \<open>
  On a paged store the generator stops after one paginator call per page (one
  call when there is no page), and it yields what the keys under the prefix
  yield when they are processed in one sequence.
\<close>

lemma paged_step:
  "fold (process_response root list_dir list_file suffix recursive)
        (paged_responses pages dir_path tok) (None, st)
     = ((if Suc (page_index tok) < length pages then Some (Suc (page_index tok)) else None),
        fold (process_content root list_dir list_file suffix recursive)
             (if page_index tok < length pages
              then filter (\<lambda>key. startswith key dir_path) (pages ! page_index tok) else [])
             st)"
  by (simp add: paged_responses_def process_response_def Let_def)

lemma paged_gen:
  assumes c: "client self = paged_store name pages"
  shows "length pages - page_index tok < depth \<Longrightarrow>
     fst (list_dir_or_file_gen depth self name root dir_path list_dir list_file suffix recursive
            tok st w)
       = Inr (fold (process_content root list_dir list_file suffix recursive)
                      (filter (\<lambda>key. startswith key dir_path)
                         (concat (drop (page_index tok) pages))) st)"
proof (induction depth arbitrary: tok st w)
  case 0
  then show ?case by simp
next
  case (Suc n)
  let ?i = "page_index tok"
  have pg: "paginate (client self) name dir_path tok = Inr (paged_responses pages dir_path tok)"
    by (simp add: c paged_store_def)
  show ?case
  proof (cases "Suc ?i < length pages")
    case True
    then have dr: "drop ?i pages = pages ! ?i # drop (Suc ?i) pages"
      by (simp add: Cons_nth_drop_Suc)
    have pi: "page_index (Some (Suc ?i)) = Suc ?i" by (simp add: page_index_def)
    from True Suc.prems have "length pages - page_index (Some (Suc ?i)) < n"
      by (simp add: pi)
    note ih = Suc.IH[OF this, unfolded pi]
    from True show ?thesis
      by (simp add: pg paged_step ih dr)
  next
    case False
    show ?thesis
    proof (cases "?i < length pages")
      case True
      with False have "drop ?i pages = [pages ! ?i]"
        by (metis Cons_nth_drop_Suc drop_all not_less)
      with False True show ?thesis by (simp add: pg paged_step)
    next
      case False
      then show ?thesis by (simp add: pg paged_step)
    qed
  qed
qed

lemma list_dir_or_file_paged:
  assumes p: "parse_path self dir_path = Inr (name, obj_name)"
    and c: "client self = paged_store name pages"
    and o1: "\<not> (list_dir \<and> suffix \<noteq> None)"
    and o2: "suffix \<noteq> Some Other"
    and f: "length pages < depth"
  shows "fst (list_dir_or_file depth self dir_path list_dir list_file suffix recursive w)
           = Inr (traversal (root_prefix obj_name) list_dir list_file suffix recursive
                          (filter (\<lambda>key. startswith key (root_prefix obj_name))
                             (concat pages)))"
proof -
  let ?root = "root_prefix obj_name"
  let ?g = "list_dir_or_file_gen depth self name ?root ?root list_dir list_file suffix recursive
              None \<lparr>duplicate_paths = {}, yielded = []\<rparr> w"
  from f have "length pages - page_index None < depth" by (simp add: page_index_def)
  from paged_gen[OF c this, of ?root ?root list_dir list_file suffix recursive
      "\<lparr>duplicate_paths = {}, yielded = []\<rparr>" w]
  obtain w1 where g: "?g = (Inr (fold (process_content ?root list_dir list_file suffix recursive)
                      (filter (\<lambda>key. startswith key ?root) (concat pages))
                      \<lparr>duplicate_paths = {}, yielded = []\<rparr>), w1)"
    by (cases ?g) (simp add: page_index_def)
  have "list_dir_or_file depth self dir_path list_dir list_file suffix recursive w
          = (case ?g of
                   (Inl e, w1) \<Rightarrow> (Inl e, w1)
                 | (Inr st, w1) \<Rightarrow> (Inr (yielded st), w1))"
    using o1 o2 by (auto simp: list_dir_or_file_def p Let_def root_prefix_def)
  then show ?thesis by (simp add: g traversal_def)
qed

lemma parse_path_client: "parse_path (self\<lparr>client := c\<rparr>) dir_path = parse_path self dir_path"
  by (simp add: parse_path_def map_path_def)

subsection \<open>One level of a directory\<close>

lemma two_keys:
  assumes "distinct xs" and "set xs = {a, b}" and "a \<noteq> b"
  shows "xs = [a, b] \<or> xs = [b, a]"
proof -
  from assms have "length xs = 2" using distinct_card[of xs] by simp
  then obtain x y where xs: "xs = [x, y]"
    by (auto simp: length_Suc_conv numeral_2_eq_2)
  with assms(2) have "{x, y} = {a, b}" by simp
  then show ?thesis unfolding xs by (auto simp: doubleton_eq_iff)
qed

lemma traversal_xz:
  "traversal ''d/'' True True None False [''d/x.txt'', ''d/y/z.txt''] = [''x.txt'', ''y/'']"
  by code_simp

lemma traversal_zx:
  "traversal ''d/'' True True None False [''d/y/z.txt'', ''d/x.txt''] = [''y/'', ''x.txt'']"
  by code_simp

text \<open>
  Claim C1: the bucket \<^verbatim>\<open>bucket\<close> holds exactly the keys \<^verbatim>\<open>d/x.txt\<close> and
  \<^verbatim>\<open>d/y/z.txt\<close>, delivered in any order on any number of pages. Listing
  \<^verbatim>\<open>s3://bucket/d\<close> with \<^verbatim>\<open>list_dir=True\<close>, \<^verbatim>\<open>list_file=True\<close>, no suffix and
  \<^verbatim>\<open>recursive=False\<close> ends (the recursion limit leaving room for more generator
  frames than there are pages) and yields \<^verbatim>\<open>y/\<close> and \<^verbatim>\<open>x.txt\<close>, each once, and nothing else: the nested
  key \<^verbatim>\<open>y/z.txt\<close> is not yielded.
\<close>

theorem list_one_level:
  assumes d: "distinct (concat pages)"
    and k: "set (concat pages) = {''d/x.txt'', ''d/y/z.txt''}"
    and f: "length pages < depth"
  shows "\<exists>out. fst (list_dir_or_file depth
                     \<lparr>path_mapping = None, client = paged_store ''bucket'' pages\<rparr>
                     ''s3://bucket/d'' True True None False w) = Inr out
           \<and> set out = {''y/'', ''x.txt''} \<and> distinct out"
proof -
  let ?self = "\<lparr>path_mapping = None, client = paged_store ''bucket'' pages\<rparr>"
  have p: "parse_path ?self ''s3://bucket/d'' = Inr (''bucket'', ''d'')"
    by (simp add: parse_path_def parse_bucket_def map_path_def startswith_def str_split1_def)
  have r: "root_prefix ''d'' = ''d/''" by (simp add: root_prefix_def endswith_def)
  have "\<forall>key\<in>set (concat pages). startswith key ''d/''"
    unfolding k by (simp add: startswith_def)
  then have flt: "filter (\<lambda>key. startswith key ''d/'') (concat pages) = concat pages"
    by (simp only: filter_True)
  have out: "fst (list_dir_or_file depth ?self ''s3://bucket/d'' True True None False w)
        = Inr (traversal ''d/'' True True None False (concat pages))"
    using list_dir_or_file_paged[OF p _ _ _ f, of True None True False w]
    by (simp add: r flt)
  from two_keys[OF d k] have "concat pages = [''d/x.txt'', ''d/y/z.txt'']
      \<or> concat pages = [''d/y/z.txt'', ''d/x.txt'']" by simp
  then show ?thesis
  proof
    assume "concat pages = [''d/x.txt'', ''d/y/z.txt'']"
    with out traversal_xz show ?thesis by auto
  next
    assume "concat pages = [''d/y/z.txt'', ''d/x.txt'']"
    with out traversal_zx show ?thesis by auto
  qed
qed

theorem list_one_level_witness:
  "distinct (concat [[''d/y/z.txt''], [], [''d/x.txt'']])
   \<and> set (concat [[''d/y/z.txt''], [], [''d/x.txt'']]) = {''d/x.txt'', ''d/y/z.txt''}
   \<and> length [[''d/y/z.txt''], [], [''d/x.txt'']] < (4::nat)
   \<and> (\<exists>out. fst (list_dir_or_file 4
                     \<lparr>path_mapping = None,
                        client = paged_store ''bucket'' [[''d/y/z.txt''], [], [''d/x.txt'']]\<rparr>
                     ''s3://bucket/d'' True True None False
                     \<lparr>requests = [], files = Map.empty\<rparr>) = Inr out
           \<and> set out = {''y/'', ''x.txt''} \<and> distinct out)"
proof -
  have d: "distinct (concat [[''d/y/z.txt''], [], [''d/x.txt'']])" by simp
  have k: "set (concat [[''d/y/z.txt''], [], [''d/x.txt'']]) = {''d/x.txt'', ''d/y/z.txt''}"
    by auto
  have f: "length [[''d/y/z.txt''], [], [''d/x.txt'']] < (4::nat)" by simp
  from d k f list_one_level[OF d k f, of "\<lparr>requests = [], files = Map.empty\<rparr>"]
  show ?thesis by blast
qed

subsection \<open>Pagination\<close>

text \<open>
  On a paged store, which answers every paginator call with one page: the path
  parses to a bucket, the options are admissible, and the bucket is delivered
  once as \<open>pages1\<close> and once as \<open>pages2\<close>, the recursion limit leaving room for
  more generator frames than there are pages. Both traversals end. When the
  pages hold the same sequence of keys the traversals yield the same sequence of
  entries; when they hold the same set of keys, in whatever order, the
  traversals yield the same set of entries. When no key ends with a slash, no
  entry ending with a slash is yielded twice.
\<close>

lemma paged_store_independent:
  assumes p: "parse_path self dir_path = Inr (name, obj_name)"
    and o1: "\<not> (list_dir \<and> suffix \<noteq> None)"
    and o2: "suffix \<noteq> Some Other"
    and f1: "length pages1 < depth1"
    and f2: "length pages2 < depth2"
  shows "\<exists>out1 out2.
      fst (list_dir_or_file depth1 (self\<lparr>client := paged_store name pages1\<rparr>) dir_path
             list_dir list_file suffix recursive w1) = Inr out1
    \<and> fst (list_dir_or_file depth2 (self\<lparr>client := paged_store name pages2\<rparr>) dir_path
             list_dir list_file suffix recursive w2) = Inr out2
    \<and> (concat pages1 = concat pages2 \<longrightarrow> out1 = out2)
    \<and> (set (concat pages1) = set (concat pages2) \<longrightarrow> set out1 = set out2)
    \<and> ((\<forall>key\<in>set (concat pages1). \<not> endswith key ''/'')
         \<longrightarrow> distinct (filter (\<lambda>e. endswith e ''/'') out1))"
proof -
  let ?root = "root_prefix obj_name"
  let ?keys = "\<lambda>pages. filter (\<lambda>key. startswith key ?root) (concat pages)"
  let ?out = "\<lambda>pages. traversal ?root list_dir list_file suffix recursive (?keys pages)"
  have p1: "parse_path (self\<lparr>client := paged_store name pages1\<rparr>) dir_path = Inr (name, obj_name)"
    and p2: "parse_path (self\<lparr>client := paged_store name pages2\<rparr>) dir_path = Inr (name, obj_name)"
    by (simp_all only: parse_path_client p)
  have r1: "fst (list_dir_or_file depth1 (self\<lparr>client := paged_store name pages1\<rparr>) dir_path
             list_dir list_file suffix recursive w1) = Inr (?out pages1)"
    by (rule list_dir_or_file_paged[OF p1 _ o1 o2 f1]) simp
  have r2: "fst (list_dir_or_file depth2 (self\<lparr>client := paged_store name pages2\<rparr>) dir_path
             list_dir list_file suffix recursive w2) = Inr (?out pages2)"
    by (rule list_dir_or_file_paged[OF p2 _ o1 o2 f2]) simp
  have a: "concat pages1 = concat pages2 \<longrightarrow> ?out pages1 = ?out pages2" by simp
  have b: "set (concat pages1) = set (concat pages2) \<longrightarrow> set (?out pages1) = set (?out pages2)"
    by (simp add: traversal_set)
  have c: "(\<forall>key\<in>set (concat pages1). \<not> endswith key ''/'')
         \<longrightarrow> distinct (filter (\<lambda>e. endswith e ''/'') (?out pages1))"
  proof
    assume "\<forall>key\<in>set (concat pages1). \<not> endswith key ''/''"
    then have "\<forall>key\<in>set (?keys pages1). \<not> endswith key ''/''" by auto
    then show "distinct (filter (\<lambda>e. endswith e ''/'') (?out pages1))"
      by (rule traversal_distinct)
  qed
  from r1 r2 a b c show ?thesis by blast
qed

text \<open>
  A paginator call that answers with two responses, the first with a
  continuation token and the second without: \<^verbatim>\<open>next_token\<close> keeps the token of
  the first response, the next generator asks for the second page again, and
  its file is yielded twice.
\<close>

lemma two_responses_repeat_page:
  "fst (list_dir_or_file 3
          \<lparr>path_mapping = None,
             client =
               \<lparr>head_bucket = (\<lambda>b. None),
                  head_object = (\<lambda>b k. None),
                  download_fileobj = (\<lambda>b k. Inr []),
                  paginate = (\<lambda>b pfx t. Inr
                    (case t of
                       None \<Rightarrow>
                         [\<lparr>NextContinuationToken = Some 1, HTTPStatusCode = 200,
                            Contents = Some [''a.txt'']\<rparr>,
                          \<lparr>NextContinuationToken = None, HTTPStatusCode = 200,
                            Contents = Some [''b.txt'']\<rparr>]
                     | Some _ \<Rightarrow>
                         [\<lparr>NextContinuationToken = None, HTTPStatusCode = 200,
                            Contents = Some [''b.txt'']\<rparr>]))\<rparr>\<rparr>
          ''s3://bucket'' True True None False \<lparr>requests = [], files = Map.empty\<rparr>)
     = Inr [''a.txt'', ''b.txt'', ''b.txt'']"
  by code_simp

text \<open>
  Claim C2 at a bucket with the folder object \<^verbatim>\<open>d/y/\<close>, delivered on three pages:
  the listing of one level yields the entry \<^verbatim>\<open>y/\<close> twice, once as the relative
  path of the folder object, through the file branch, and once as the directory
  inferred from \<^verbatim>\<open>d/y/z.txt\<close>. The claim says a traversal has no duplicate
  directory entries.
\<close>

theorem list_pages_marker_twice:
  "fst (list_dir_or_file 4
          \<lparr>path_mapping = None,
             client = paged_store ''bucket'' [[''d/x.txt''], [''d/y/''], [''d/y/z.txt'']]\<rparr>
          ''s3://bucket/d'' True True None False \<lparr>requests = [], files = Map.empty\<rparr>)
     = Inr [''x.txt'', ''y/'', ''y/'']"
  by code_simp

subsection \<open>A directory yielded twice\<close>

text \<open>
  Claim C3 at a bucket with the folder object \<^verbatim>\<open>d/y/\<close> and the key \<^verbatim>\<open>d/y/z.txt\<close>:
  the recursive listing of \<^verbatim>\<open>s3://bucket/d\<close> yields \<^verbatim>\<open>y/\<close> twice, once as the
  relative path of the folder object, through the file branch, and once as the
  directory inferred from \<^verbatim>\<open>d/y/z.txt\<close>.
\<close>

theorem list_marker_twice:
  "fst (list_dir_or_file 2
          \<lparr>path_mapping = None, client = paged_store ''bucket'' [[''d/y/'', ''d/y/z.txt'']]\<rparr>
          ''s3://bucket/d'' True True None True \<lparr>requests = [], files = Map.empty\<rparr>)
     = Inr [''y/'', ''y/'', ''y/z.txt'']"
  by code_simp

subsection \<open>Segments of a key that repeats the root\<close>

text \<open>
  Claim C4 at root \<^verbatim>\<open>a/\<close> and key \<^verbatim>\<open>a/a/b\<close>: the relative path is \<^verbatim>\<open>a/b\<close>, and
  \<^verbatim>\<open>path.replace(root, '')\<close> removes its \<^verbatim>\<open>a/\<close> too, so the segments are
  \<open>[b]\<close> and the level is 1, not \<open>[a, b]\<close> and 2. The listing of one level then
  yields the nested key as the file \<^verbatim>\<open>a/b\<close> and no directory \<^verbatim>\<open>a/\<close>.
\<close>

theorem sparse_path_rewrites:
  "sparse_path ''a/'' (rel_path ''a/'' ''a/a/b'') = [''b'']
   \<and> fst (list_dir_or_file 2
          \<lparr>path_mapping = None, client = paged_store ''bucket'' [[''a/a/b'']]\<rparr>
          ''s3://bucket/a'' True True None False \<lparr>requests = [], files = Map.empty\<rparr>)
     = Inr [''a/b'']"
  by code_simp

end
